theory Spec2Isabelle
  imports Main "HOL-Library.Word"
begin

section \<open>The doom-fire program (doom-fire.go) as HOL functions\<close>

text \<open>
  The grid engine and the renderer of \<^verbatim>\<open>doom-fire.go\<close>. The cells are \<^verbatim>\<open>int8\<close> and
  the colour channels \<^verbatim>\<open>uint8\<close>, both 8-bit words; the subtraction in \<^verbatim>\<open>Spread\<close>
  wraps around as Go's does. A run-time panic is the \<open>Inl\<close> of a sum.

  Go's \<^verbatim>\<open>int\<close> has 64 bits. It is modelled as \<^typ>\<open>int\<close>, with the wrap-around written
  out in \<^verbatim>\<open>Init\<close>, which multiplies the two dimensions it is given. \<^verbatim>\<open>Spread\<close> and
  \<^verbatim>\<open>Render\<close> are modelled on the integers: on a flame whose grid has \<open>width * height\<close>
  cells the indexes they compute stay between \<open>-2\<close> and \<open>width * height + width\<close>, and
  a slice has fewer than \<open>2 ^ 63\<close> cells. Memory is not modelled: \<^verbatim>\<open>make\<close> returns a
  slice for every length that is not negative.
\<close>

subsection \<open>Data\<close>

datatype error = IndexOutOfRange | MakeLenOutOfRange

type_synonym int8 = "8 word"
type_synonym uint8 = "8 word"
type_synonym rgb = "uint8 \<times> uint8 \<times> uint8"

text \<open>
  \<^verbatim>\<open>*rand.Rand\<close> is the standard library's generator. Its state is modelled as the
  sequence of raw numbers it still has to deliver, the next one at position 0;
  \<^verbatim>\<open>Intn(n)\<close> takes that one into \<open>[0, n)\<close> and moves on. Both calls of the program
  pass \<open>n = 6\<close>, so the panic of \<^verbatim>\<open>Intn\<close> on \<open>n \<le> 0\<close> cannot happen and is left out.
\<close>

type_synonym Rand = "nat \<Rightarrow> nat"

definition Intn :: "Rand \<Rightarrow> nat \<Rightarrow> int \<times> Rand" where
  "Intn r n = (int (r 0 mod n), (\<lambda>i. r (Suc i)))"

record Flame =
  width :: int
  height :: int
  grid :: "int8 list"
  buffer :: string
  renders :: int
  rand :: Rand

record Dimensions =
  Width :: int
  Height :: int

text \<open>The value a 64-bit \<^verbatim>\<open>int\<close> holds after an operation whose exact result is \<open>i\<close>.\<close>

definition wrap64 :: "int \<Rightarrow> int" where
  "wrap64 i = (i + 2 ^ 63) mod 2 ^ 64 - 2 ^ 63"

subsection \<open>Slices\<close>

text \<open>
  \<^verbatim>\<open>make([]int8, n)\<close>, and reading and writing a slice at an index, with Go's panics.
\<close>

definition make_slice :: "int \<Rightarrow> error + int8 list" where
  "make_slice n = (if n < 0 then Inl MakeLenOutOfRange else Inr (replicate (nat n) 0))"

definition index :: "'a list \<Rightarrow> int \<Rightarrow> error + 'a" where
  "index xs i = (if 0 \<le> i \<and> i < int (length xs) then Inr (xs ! nat i) else Inl IndexOutOfRange)"

definition store :: "'a list \<Rightarrow> int \<Rightarrow> 'a \<Rightarrow> error + 'a list" where
  "store xs i v = (if 0 \<le> i \<and> i < int (length xs) then Inr (xs[nat i := v]) else Inl IndexOutOfRange)"

subsection \<open>mapColor\<close>

definition cmap :: "rgb list" where
  "cmap =
    [(0x07, 0x07, 0x07), (0x1f, 0x07, 0x07), (0x2f, 0x0f, 0x07),
     (0x47, 0x0f, 0x07), (0x57, 0x17, 0x07), (0x67, 0x1f, 0x07),
     (0x77, 0x1f, 0x07), (0x8f, 0x27, 0x07), (0x9f, 0x2f, 0x07),
     (0xaf, 0x3f, 0x07), (0xbf, 0x47, 0x07), (0xc7, 0x47, 0x07),
     (0xdf, 0x4f, 0x07), (0xdf, 0x57, 0x07), (0xdf, 0x57, 0x07),
     (0xd7, 0x5f, 0x07), (0xd7, 0x67, 0x0f), (0xcf, 0x6f, 0x0f),
     (0xcf, 0x77, 0x0f), (0xcf, 0x7f, 0x0f), (0xcf, 0x87, 0x17),
     (0xc7, 0x87, 0x17), (0xc7, 0x8f, 0x17), (0xc7, 0x97, 0x1f),
     (0xbf, 0x9f, 0x1f), (0xbf, 0x9f, 0x1f), (0xbf, 0xa7, 0x27),
     (0xbf, 0xa7, 0x27), (0xbf, 0xaf, 0x2f), (0xb7, 0xaf, 0x2f),
     (0xb7, 0xb7, 0x2f), (0xb7, 0xb7, 0x37), (0xcf, 0xcf, 0x6f),
     (0xdf, 0xdf, 0x9f), (0xef, 0xef, 0xc7), (0xff, 0xff, 0xff)]"

definition mapColor :: "int8 \<Rightarrow> error + rgb" where
  "mapColor v =
     (if v <s 0 \<or> sint v \<ge> int (length cmap) then Inr (0, 0, 0)
      else index cmap (sint v))"

subsection \<open>Init and SetDimensions\<close>

text \<open>
  The product for \<^verbatim>\<open>make\<close> and the index of each cell of the last row are computed in
  64 bits. The loop counter stays below the width, so its increment cannot wrap.
\<close>

function Init_loop :: "int \<Rightarrow> int \<Rightarrow> int \<Rightarrow> int8 list \<Rightarrow> error + int8 list" where
  "Init_loop w h j g =
     (if j < w then
        (case store g (wrap64 (wrap64 (wrap64 (h - 1) * w) + j)) 35 of
           Inl e \<Rightarrow> Inl e
         | Inr g' \<Rightarrow> Init_loop w h (j + 1) g')
      else Inr g)"
  by pat_completeness auto
termination
  by (relation "measure (\<lambda>(w, h, j, g). nat (w - j))") auto

declare Init_loop.simps [simp del]

definition Init :: "Flame \<Rightarrow> error + Flame" where
  "Init flame =
     (case make_slice (wrap64 (width flame * height flame)) of
        Inl e \<Rightarrow> Inl e
      | Inr g \<Rightarrow>
          (case Init_loop (width flame) (height flame) 0 g of
             Inl e \<Rightarrow> Inl e
           | Inr g' \<Rightarrow> Inr (flame\<lparr>grid := g'\<rparr>)))"

definition SetDimensions :: "Dimensions \<Rightarrow> Flame \<Rightarrow> error + Flame" where
  "SetDimensions d flame = Init (flame\<lparr>width := Width d, height := Height d\<rparr>)"

subsection \<open>Spread\<close>

text \<open>
  The body of the inner loop, for the source cell in row \<open>y\<close> and column \<open>x\<close>. The
  first draw moves the destination; a skipped cell makes no second draw. The two clips
  read the cell that has just been stored, so they cannot panic.
\<close>

definition Spread_cell ::
  "int \<Rightarrow> int \<Rightarrow> int \<Rightarrow> int \<Rightarrow> int8 list \<times> Rand \<Rightarrow> error + int8 list \<times> Rand" where
  "Spread_cell w h y x s =
     (let (g, r) = s;
          src = (y * w) + x;
          (j, r1) = Intn r 6;
          dst = (src - w) + j - 2;
          start = (y - 1) * w;
          end = y * w + w
      in if dst < start \<or> dst > end then Inr (g, r1)
         else
           let end' = (w * h) - 1;
               dst = (if dst > end' then end' else dst);
               (k, r2) = Intn r1 6
           in (case index g src of
                 Inl e \<Rightarrow> Inl e
               | Inr v \<Rightarrow>
                   (case store g dst (v - word_of_int (k - 1)) of
                      Inl e \<Rightarrow> Inl e
                    | Inr g1 \<Rightarrow>
                        let g2 = (if 35 <s g1 ! nat dst then g1[nat dst := 35] else g1);
                            g3 = (if g2 ! nat dst <s 0 then g2[nat dst := 0] else g2)
                        in Inr (g3, r2))))"

function Spread_cols ::
  "int \<Rightarrow> int \<Rightarrow> int \<Rightarrow> int \<Rightarrow> int8 list \<times> Rand \<Rightarrow> error + int8 list \<times> Rand" where
  "Spread_cols w h y x s =
     (if x < w then
        (case Spread_cell w h y x s of
           Inl e \<Rightarrow> Inl e
         | Inr s' \<Rightarrow> Spread_cols w h y (x + 1) s')
      else Inr s)"
  by pat_completeness auto
termination
  by (relation "measure (\<lambda>(w, h, y, x, s). nat (w - x))") auto

declare Spread_cols.simps [simp del]

function Spread_rows ::
  "int \<Rightarrow> int \<Rightarrow> int \<Rightarrow> int8 list \<times> Rand \<Rightarrow> error + int8 list \<times> Rand" where
  "Spread_rows w h y s =
     (if y > 0 then
        (case Spread_cols w h y 0 s of
           Inl e \<Rightarrow> Inl e
         | Inr s' \<Rightarrow> Spread_rows w h (y - 1) s')
      else Inr s)"
  by pat_completeness auto
termination
  by (relation "measure (\<lambda>(w, h, y, s). nat y)") auto

declare Spread_rows.simps [simp del]

definition Spread :: "Flame \<Rightarrow> error + Flame" where
  "Spread flame =
     (case Spread_rows (width flame) (height flame) (height flame - 1) (grid flame, rand flame) of
        Inl e \<Rightarrow> Inl e
      | Inr (g, r) \<Rightarrow> Inr (flame\<lparr>grid := g, rand := r\<rparr>))"

text \<open>\<open>n\<close> successive calls of \<^verbatim>\<open>Spread\<close>, as the animation loop makes them.\<close>

fun Spread_times :: "nat \<Rightarrow> Flame \<Rightarrow> error + Flame" where
  "Spread_times 0 flame = Inr flame"
| "Spread_times (Suc n) flame =
     (case Spread flame of
        Inl e \<Rightarrow> Inl e
      | Inr flame' \<Rightarrow> Spread_times n flame')"

subsection \<open>Render\<close>

text \<open>
  The byte strings \<^verbatim>\<open>Render\<close> writes: the cursor-home sequence, the two
  colour sequences that \<^verbatim>\<open>fmt.Sprintf\<close> builds with \<^verbatim>\<open>%d\<close>, and the upper
  half block U+2580 in UTF-8.
\<close>

definition digit :: "nat \<Rightarrow> char" where
  "digit n = ''0123456789'' ! n"

function Sprintf_d :: "nat \<Rightarrow> string" where
  "Sprintf_d n = (if n < 10 then [digit n] else Sprintf_d (n div 10) @ [digit (n mod 10)])"
  by pat_completeness auto
termination
  by (relation "measure id") auto

declare Sprintf_d.simps [simp del]

definition cursor_home :: string where
  "cursor_home = CHR 0x1B # ''[0;0H''"

definition set_fg :: "rgb \<Rightarrow> string" where
  "set_fg c =
     (case c of (c0, c1, c2) \<Rightarrow>
        CHR 0x1B # ''[38;2;'' @ Sprintf_d (unat c0) @ '';'' @ Sprintf_d (unat c1) @ '';''
          @ Sprintf_d (unat c2) @ ''m'')"

definition set_bg :: "rgb \<Rightarrow> string" where
  "set_bg c =
     (case c of (c0, c1, c2) \<Rightarrow>
        CHR 0x1B # ''[48;2;'' @ Sprintf_d (unat c0) @ '';'' @ Sprintf_d (unat c1) @ '';''
          @ Sprintf_d (unat c2) @ ''m'')"

definition glyph :: string where
  "glyph = [CHR 0xE2, CHR 0x96, CHR 0x80]"

text \<open>
  The loop state of \<^verbatim>\<open>Render\<close>: the buffer, \<^verbatim>\<open>prevbg\<close> and \<^verbatim>\<open>prevfg\<close>.
\<close>

type_synonym render_state = "string \<times> rgb \<times> rgb"

definition Render_cell ::
  "int \<Rightarrow> int8 list \<Rightarrow> int \<Rightarrow> int \<Rightarrow> render_state \<Rightarrow> error + render_state" where
  "Render_cell w g y x s =
     (case s of (buf, prevbg, prevfg) \<Rightarrow>
        (case index g ((y * w) + x) of
           Inl e \<Rightarrow> Inl e
         | Inr v \<Rightarrow>
             (case mapColor v of
                Inl e \<Rightarrow> Inl e
              | Inr c \<Rightarrow>
                  (case (if c \<noteq> prevfg then (buf @ set_fg c, c) else (buf, prevfg)) of
                     (buf1, prevfg1) \<Rightarrow>
                       (case index g (((y + 1) * w) + x) of
                          Inl e \<Rightarrow> Inl e
                        | Inr v' \<Rightarrow>
                            (case mapColor v' of
                               Inl e \<Rightarrow> Inl e
                             | Inr c' \<Rightarrow>
                                 (case (if c' \<noteq> prevbg then (buf1 @ set_bg c', c')
                                        else (buf1, prevbg)) of
                                    (buf2, prevbg1) \<Rightarrow>
                                      Inr (buf2 @ glyph, prevbg1, prevfg1))))))))"

function Render_cols ::
  "int \<Rightarrow> int8 list \<Rightarrow> int \<Rightarrow> int \<Rightarrow> render_state \<Rightarrow> error + render_state" where
  "Render_cols w g y x s =
     (if x < w then
        (case Render_cell w g y x s of
           Inl e \<Rightarrow> Inl e
         | Inr s' \<Rightarrow> Render_cols w g y (x + 1) s')
      else Inr s)"
  by pat_completeness auto
termination
  by (relation "measure (\<lambda>(w, g, y, x, s). nat (w - x))") auto

declare Render_cols.simps [simp del]

function Render_rows ::
  "int \<Rightarrow> int \<Rightarrow> int8 list \<Rightarrow> int \<Rightarrow> render_state \<Rightarrow> error + render_state" where
  "Render_rows w h g y s =
     (if y < h then
        (case Render_cols w g y 0 s of
           Inl e \<Rightarrow> Inl e
         | Inr s' \<Rightarrow> Render_rows w h g (y + 2) s')
      else Inr s)"
  by pat_completeness auto
termination
  by (relation "measure (\<lambda>(w, h, g, y, s). nat (h - y))") auto

declare Render_rows.simps [simp del]

text \<open>
  \<^verbatim>\<open>Render\<close> returns the bytes that \<^verbatim>\<open>io.Copy\<close> moves from the buffer to the
  standard output, and the flame with its buffer reset and its counter advanced. The
  pause at its end has no effect on the state.
\<close>

definition Render :: "Flame \<Rightarrow> error + string \<times> Flame" where
  "Render flame =
     (case Render_rows (width flame) (height flame) (grid flame) 0
             (buffer flame @ cursor_home, (0, 0, 0), (0, 0, 0)) of
        Inl e \<Rightarrow> Inl e
      | Inr (buf, prevbg, prevfg) \<Rightarrow>
          Inr (buf, flame\<lparr>renders := renders flame + 1, buffer := []\<rparr>))"

text \<open>\<^verbatim>\<open>newFlame(withDimentions(0, 0))\<close>, for a generator \<open>r\<close>.\<close>

definition newFlame :: "Rand \<Rightarrow> Flame" where
  "newFlame r = \<lparr>width = 0, height = 0, grid = [], buffer = [], renders = 0, rand = r\<rparr>"

subsection \<open>Propagate, as the specification describes it\<close>

text \<open>
  The step of the specification, to be compared with \<^verbatim>\<open>Spread\<close>. For the source cell
  in row \<open>y\<close> and column \<open>x\<close>: draw \<open>j\<close> in \<open>[0, 6)\<close>; the destination is the flat index
  \<open>(y - 1) * width + x + (j - 2)\<close>; outside \<open>[(y - 1) * width, y * width + width]\<close> the cell
  is skipped, with no write; a destination beyond the last cell \<open>width * height - 1\<close>
  becomes that cell; the destination receives the source value minus a second draw in
  \<open>[-1, 5)\<close>, clamped into \<open>[0, 35]\<close>. The arithmetic is that of the integers.
\<close>

definition clamp_0_35 :: "int \<Rightarrow> int" where
  "clamp_0_35 i = max 0 (min 35 i)"

definition Propagate_cell :: "int \<Rightarrow> int \<Rightarrow> int \<times> int \<Rightarrow> int8 list \<times> Rand \<Rightarrow> int8 list \<times> Rand" where
  "Propagate_cell w h yx s =
     (case yx of (y, x) \<Rightarrow>
        (case s of (g, r) \<Rightarrow>
           (case Intn r 6 of (j, r1) \<Rightarrow>
              (let d = (y - 1) * w + x + (j - 2)
               in if d < (y - 1) * w \<or> d > y * w + w then (g, r1)
                  else
                    (case Intn r1 6 of (k, r2) \<Rightarrow>
                       (let d' = (if d > w * h - 1 then w * h - 1 else d);
                            source = sint (g ! nat (y * w + x))
                        in (g[nat d' := word_of_int (clamp_0_35 (source - (k - 1)))], r2)))))))"

text \<open>
  The source cells in the order of the visit: the rows from the last one up to row 1, each
  from left to right.
\<close>

definition source_cells :: "int \<Rightarrow> int \<Rightarrow> (int \<times> int) list" where
  "source_cells w h = concat (map (\<lambda>y. map (\<lambda>x. (y, x)) [0..w - 1]) (rev [1..h - 1]))"

definition Propagate :: "Flame \<Rightarrow> Flame" where
  "Propagate flame =
     (case fold (Propagate_cell (width flame) (height flame))
             (source_cells (width flame) (height flame)) (grid flame, rand flame) of
        (g, r) \<Rightarrow> flame\<lparr>grid := g, rand := r\<rparr>)"

text \<open>
  The cells for which the 8-bit subtraction of \<^verbatim>\<open>Spread\<close> cannot wrap around, whatever is
  drawn. Every intensity in \<open>[0, 35]\<close> is among them.
\<close>

definition no_wrap :: "int8 list \<Rightarrow> bool" where
  "no_wrap g = (\<forall>c \<in> set g. - 124 \<le> sint c \<and> sint c \<le> 126)"

subsection \<open>A renderer without the colour cache, and a terminal\<close>

text \<open>
  The renderer that \<^verbatim>\<open>Render\<close> is compared with: the same loops, but both colour
  sequences are written for every cell, whatever was written before.
\<close>

definition Render_uncond_cell :: "int \<Rightarrow> int8 list \<Rightarrow> int \<Rightarrow> int \<Rightarrow> string \<Rightarrow> error + string" where
  "Render_uncond_cell w g y x buf =
     (case index g ((y * w) + x) of
        Inl e \<Rightarrow> Inl e
      | Inr v \<Rightarrow>
          (case mapColor v of
             Inl e \<Rightarrow> Inl e
           | Inr c \<Rightarrow>
               (case index g (((y + 1) * w) + x) of
                  Inl e \<Rightarrow> Inl e
                | Inr v' \<Rightarrow>
                    (case mapColor v' of
                       Inl e \<Rightarrow> Inl e
                     | Inr c' \<Rightarrow> Inr (buf @ set_fg c @ set_bg c' @ glyph)))))"

function Render_uncond_cols :: "int \<Rightarrow> int8 list \<Rightarrow> int \<Rightarrow> int \<Rightarrow> string \<Rightarrow> error + string" where
  "Render_uncond_cols w g y x buf =
     (if x < w then
        (case Render_uncond_cell w g y x buf of
           Inl e \<Rightarrow> Inl e
         | Inr buf' \<Rightarrow> Render_uncond_cols w g y (x + 1) buf')
      else Inr buf)"
  by pat_completeness auto
termination
  by (relation "measure (\<lambda>(w, g, y, x, buf). nat (w - x))") auto

declare Render_uncond_cols.simps [simp del]

function Render_uncond_rows :: "int \<Rightarrow> int \<Rightarrow> int8 list \<Rightarrow> int \<Rightarrow> string \<Rightarrow> error + string" where
  "Render_uncond_rows w h g y buf =
     (if y < h then
        (case Render_uncond_cols w g y 0 buf of
           Inl e \<Rightarrow> Inl e
         | Inr buf' \<Rightarrow> Render_uncond_rows w h g (y + 2) buf')
      else Inr buf)"
  by pat_completeness auto
termination
  by (relation "measure (\<lambda>(w, h, g, y, buf). nat (h - y))") auto

declare Render_uncond_rows.simps [simp del]

definition Render_uncond :: "Flame \<Rightarrow> error + string \<times> Flame" where
  "Render_uncond flame =
     (case Render_uncond_rows (width flame) (height flame) (grid flame) 0
             (buffer flame @ cursor_home) of
        Inl e \<Rightarrow> Inl e
      | Inr buf \<Rightarrow> Inr (buf, flame\<lparr>renders := renders flame + 1, buffer := []\<rparr>))"

text \<open>
  The terminal that reads the output, byte by byte: the colours in force (\<open>None\<close> before
  any colour sequence), the cursor as the number of cells from the home position, and the
  pair of colours each cell was printed with. It knows the three sequences of the
  program and the half block; any other input leaves it \<open>Garbled\<close>.
\<close>

datatype parser = Ground | Escape | Csi "nat list" nat | Utf8_E2 | Utf8_E2_96 | Garbled

record terminal =
  fg :: "rgb option"
  bg :: "rgb option"
  cursor :: nat
  screen :: "nat \<Rightarrow> (rgb option \<times> rgb option) option"
  mode :: parser

definition is_digit :: "char \<Rightarrow> bool" where
  "is_digit c = (48 \<le> (of_char c :: nat) \<and> (of_char c :: nat) \<le> 57)"

definition digit_value :: "char \<Rightarrow> nat" where
  "digit_value c = of_char c - 48"

definition sgr :: "nat list \<Rightarrow> terminal \<Rightarrow> terminal" where
  "sgr ps t =
     (case ps of
        [a, b, c0, c1, c2] \<Rightarrow>
          if a = 38 \<and> b = 2 then t\<lparr>fg := Some (of_nat c0, of_nat c1, of_nat c2), mode := Ground\<rparr>
          else if a = 48 \<and> b = 2 then t\<lparr>bg := Some (of_nat c0, of_nat c1, of_nat c2), mode := Ground\<rparr>
          else t\<lparr>mode := Garbled\<rparr>
      | _ \<Rightarrow> t\<lparr>mode := Garbled\<rparr>)"

definition feed :: "terminal \<Rightarrow> char \<Rightarrow> terminal" where
  "feed t c =
     (case mode t of
        Ground \<Rightarrow>
          if c = CHR 0x1B then t\<lparr>mode := Escape\<rparr>
          else if c = CHR 0xE2 then t\<lparr>mode := Utf8_E2\<rparr>
          else t\<lparr>mode := Garbled\<rparr>
      | Escape \<Rightarrow> if c = CHR ''['' then t\<lparr>mode := Csi [] 0\<rparr> else t\<lparr>mode := Garbled\<rparr>
      | Csi ps n \<Rightarrow>
          if is_digit c then t\<lparr>mode := Csi ps (10 * n + digit_value c)\<rparr>
          else if c = CHR '';'' then t\<lparr>mode := Csi (ps @ [n]) 0\<rparr>
          else if c = CHR ''H'' then
            (if ps @ [n] = [0, 0] then t\<lparr>cursor := 0, mode := Ground\<rparr> else t\<lparr>mode := Garbled\<rparr>)
          else if c = CHR ''m'' then sgr (ps @ [n]) t
          else t\<lparr>mode := Garbled\<rparr>
      | Utf8_E2 \<Rightarrow> if c = CHR 0x96 then t\<lparr>mode := Utf8_E2_96\<rparr> else t\<lparr>mode := Garbled\<rparr>
      | Utf8_E2_96 \<Rightarrow>
          if c = CHR 0x80 then
            t\<lparr>screen := (screen t)(cursor t \<mapsto> (fg t, bg t)), cursor := cursor t + 1, mode := Ground\<rparr>
          else t\<lparr>mode := Garbled\<rparr>
      | Garbled \<Rightarrow> t)"

definition decode :: "terminal \<Rightarrow> string \<Rightarrow> terminal" where
  "decode t s = foldl feed t s"

text \<open>A terminal on which nothing has been printed and no colour has been set.\<close>

definition blank :: terminal where
  "blank = \<lparr>fg = None, bg = None, cursor = 0, screen = (\<lambda>i. None), mode = Ground\<rparr>"

text \<open>
  The colour that \<^verbatim>\<open>mapColor\<close> returns, the grids whose cells are all intensities, and
  the relation between the loop state of \<^verbatim>\<open>Render\<close> and the buffer of the renderer
  without the cache, seen from a terminal that started as \<open>t0\<close>: both buffers leave the
  terminal in the same state, which is a ground state, and each cached colour is the one
  in force on the terminal unless it is still the initial black.
\<close>

definition colorOf :: "int8 \<Rightarrow> rgb" where
  "colorOf v = (if 0 \<le>s v \<and> v \<le>s 35 then cmap ! nat (sint v) else (0, 0, 0))"

definition intensities :: "int8 list \<Rightarrow> bool" where
  "intensities g = (\<forall>c \<in> set g. 0 \<le>s c \<and> c \<le>s 35)"

definition in_sync :: "terminal \<Rightarrow> render_state \<Rightarrow> string \<Rightarrow> bool" where
  "in_sync t0 s ubuf =
     (case s of (buf, prevbg, prevfg) \<Rightarrow>
        decode t0 ubuf = decode t0 buf \<and> mode (decode t0 buf) = Ground \<and>
        (fg (decode t0 buf) = Some prevfg \<or> prevfg = (0, 0, 0)) \<and>
        (bg (decode t0 buf) = Some prevbg \<or> prevbg = (0, 0, 0)))"

section \<open>Properties\<close>

subsection \<open>The palette and the initial grid\<close>

lemma length_cmap: "length cmap = 36"
  by (simp add: cmap_def)

lemma mapColor_eq:
  "mapColor v = Inr (if 0 \<le>s v \<and> v \<le>s 35 then cmap ! nat (sint v) else (0, 0, 0))"
  by (auto simp: mapColor_def index_def length_cmap word_sless_alt word_sle_eq)








text \<open>
  C6: \<^verbatim>\<open>mapColor\<close> never panics. The palette has 36 entries; an intensity in
  \<open>[0, 35]\<close> is mapped to its palette entry, every other intensity to black \<open>(0, 0, 0)\<close>.
\<close>

theorem mapColor_total:
  "length cmap = 36 \<and>
   mapColor v = Inr (if 0 \<le>s v \<and> v \<le>s 35 then cmap ! nat (sint v) else (0, 0, 0))"
  using length_cmap mapColor_eq by simp

theorem mapColor_total_witness:
  "mapColor 35 = Inr (0xff, 0xff, 0xff) \<and> mapColor 0 = Inr (7, 7, 7) \<and>
   mapColor 36 = Inr (0, 0, 0) \<and> mapColor (- 1) = Inr (0, 0, 0)"
  using mapColor_total [of 35] mapColor_total [of 0] mapColor_total [of 36] mapColor_total [of "- 1"]
  by (simp add: cmap_def word_sle_eq)

subsection \<open>One cell of Spread\<close>

text \<open>
  In a grid of \<open>w * h\<close> cells, the loop body at a source cell of a row \<open>0 < y < h\<close>
  never panics. It either skips the cell, or it writes one clipped value at an index that
  lies between the start of row \<open>y - 1\<close> and the third cell of row \<open>y\<close>.
\<close>

lemma cell_bounds:
  assumes "0 \<le> (x::int)" "x < w" "0 < (y::int)" "y < h"
  shows "0 \<le> (y - 1) * w" and "0 \<le> y * w + x" and "y * w + x < w * h"
proof -
  have w: "0 < w" using assms by linarith
  show "0 \<le> (y - 1) * w" using assms w by simp
  show "0 \<le> y * w + x" using assms w by simp
  have "(y + 1) * w \<le> h * w" using assms w by (intro mult_right_mono) simp_all
  then show "y * w + x < w * h" using assms by (simp add: algebra_simps)
qed

lemma Spread_cell_cases:
  assumes len: "int (length g) = w * h" and x: "0 \<le> x" "x < w" and y: "0 < y" "y < h"
  obtains (skipped)
      "((y * w) + x - w) + int (r 0 mod 6) - 2 < (y - 1) * w \<or>
       ((y * w) + x - w) + int (r 0 mod 6) - 2 > y * w + w"
      and "Spread_cell w h y x (g, r) = Inr (g, \<lambda>i. r (Suc i))"
  | (written) d v where
      "\<not> (((y * w) + x - w) + int (r 0 mod 6) - 2 < (y - 1) * w \<or>
          ((y * w) + x - w) + int (r 0 mod 6) - 2 > y * w + w)"
      and "d = (if ((y * w) + x - w) + int (r 0 mod 6) - 2 > (w * h) - 1 then (w * h) - 1
                else ((y * w) + x - w) + int (r 0 mod 6) - 2)"
      and "v = (if 35 <s g ! nat ((y * w) + x) - word_of_int (int (r (Suc 0) mod 6) - 1) then 35
                else if g ! nat ((y * w) + x) - word_of_int (int (r (Suc 0) mod 6) - 1) <s 0 then 0
                else g ! nat ((y * w) + x) - word_of_int (int (r (Suc 0) mod 6) - 1))"
      and "(y - 1) * w \<le> d" and "d \<le> y * w + 2" and "d < w * h"
      and "0 \<le>s v" and "v \<le>s 35"
      and "Spread_cell w h y x (g, r) = Inr (g[nat d := v], \<lambda>i. r (Suc (Suc i)))"
proof -
  let ?j = "int (r 0 mod 6)"
  let ?dst = "((y * w) + x - w) + ?j - 2"
  let ?raw = "g ! nat ((y * w) + x) - word_of_int (int (r (Suc 0) mod 6) - 1)"
  let ?clipped = "if 35 <s ?raw then 35 else if ?raw <s 0 then 0 else ?raw"
  have j: "0 \<le> ?j" "?j \<le> 5" by simp_all
  note bnd = cell_bounds [OF x y]
  have v: "0 \<le>s ?clipped" "?clipped \<le>s 35"
    by (auto simp: word_sless_alt word_sle_eq)
  have src: "index g ((y * w) + x) = Inr (g ! nat ((y * w) + x))"
    using bnd len by (simp add: index_def)
  have wr: "(case store g d ?raw of
               Inl e \<Rightarrow> Inl e
             | Inr g1 \<Rightarrow>
                 let g2 = (if 35 <s g1 ! nat d then g1[nat d := 35] else g1);
                     g3 = (if g2 ! nat d <s 0 then g2[nat d := 0] else g2)
                 in Inr (g3, r2)) = Inr (g[nat d := ?clipped], r2)"
    if "0 \<le> d" "d < w * h" for d and r2 :: Rand
  proof -
    have "nat d < length g" using that len by linarith
    then show ?thesis using that len
      by (simp add: store_def Let_def word_sless_alt)
  qed
  consider (a) "?dst < (y - 1) * w \<or> ?dst > y * w + w"
    | (b) "\<not> (?dst < (y - 1) * w \<or> ?dst > y * w + w)" "?dst > (w * h) - 1"
    | (c) "\<not> (?dst < (y - 1) * w \<or> ?dst > y * w + w)" "\<not> ?dst > (w * h) - 1"
    by blast
  then show thesis
  proof cases
    case a
    then have "Spread_cell w h y x (g, r) = Inr (g, \<lambda>i. r (Suc i))"
      unfolding Spread_cell_def Intn_def Let_def prod.case by (simp only: if_True)
    then show thesis using a by (intro skipped)
  next
    case b
    have d: "0 \<le> w * h - 1" "w * h - 1 < w * h" using bnd(2,3) by simp_all
    have "Spread_cell w h y x (g, r) = Inr (g[nat (w * h - 1) := ?clipped], \<lambda>i. r (Suc (Suc i)))"
      unfolding Spread_cell_def Intn_def Let_def prod.case
      using b by (simp only: if_True if_False src sum.case) (rule wr [unfolded Let_def, OF d])
    moreover have "(y - 1) * w \<le> w * h - 1" using bnd(3) x by (simp add: algebra_simps)
    moreover have "w * h - 1 \<le> y * w + 2" using b(2) j x by (simp add: algebra_simps)
    ultimately show thesis using b d v by (intro written [of "w * h - 1" ?clipped]) simp_all
  next
    case c
    have d: "0 \<le> ?dst" "?dst < w * h" using c bnd(1) by simp_all
    have "Spread_cell w h y x (g, r) = Inr (g[nat ?dst := ?clipped], \<lambda>i. r (Suc (Suc i)))"
      unfolding Spread_cell_def Intn_def Let_def prod.case
      using c by (simp only: if_True if_False src sum.case) (rule wr [unfolded Let_def, OF d])
    moreover have "(y - 1) * w \<le> ?dst" using c(1) by simp
    moreover have "?dst \<le> y * w + 2" using j x by (simp add: algebra_simps)
    ultimately show thesis using c d v by (intro written [of ?dst ?clipped]) simp_all
  qed
qed

subsection \<open>Invariants of Spread\<close>

text \<open>
  A property \<open>I\<close> of the grid that survives every write of a clipped value at an index
  up to the third cell of the last row survives the inner loop, the outer loop,
  \<^verbatim>\<open>Spread\<close> and any number of calls of it; and none of them panics on a grid of
  \<open>width * height\<close> cells.
\<close>

lemma Spread_cols_inv:
  assumes "int (length (fst s)) = w * h" and "0 \<le> x" and "0 < y" and "y < h" and "I (fst s)"
    and "\<And>g d v. I g \<Longrightarrow> int (length g) = w * h \<Longrightarrow> 0 \<le> d \<Longrightarrow> d \<le> y * w + 2 \<Longrightarrow> d < w * h \<Longrightarrow>
           0 \<le>s v \<Longrightarrow> v \<le>s 35 \<Longrightarrow> I (g[nat d := v])"
  shows "\<exists>s'. Spread_cols w h y x s = Inr s' \<and> int (length (fst s')) = w * h \<and> I (fst s')"
  using assms
proof (induction w h y x s rule: Spread_cols.induct)
  case (1 w h y x s)
  show ?case
  proof (cases "x < w")
    case False
    then show ?thesis using "1.prems"(1,5) by (simp add: Spread_cols.simps)
  next
    case True
    obtain g r where s: "s = (g, r)" by (cases s)
    have len: "int (length g) = w * h" and I: "I g" using "1.prems" s by simp_all
    note bnd = cell_bounds [OF "1.prems"(2) True "1.prems"(3,4)]
    have "\<exists>s1. Spread_cell w h y x s = Inr s1 \<and> int (length (fst s1)) = w * h \<and> I (fst s1)"
    proof (rule Spread_cell_cases [OF len "1.prems"(2) True "1.prems"(3,4), of r])
      assume "Spread_cell w h y x (g, r) = Inr (g, \<lambda>i. r (Suc i))"
      then show ?thesis using len I s by simp
    next
      fix d v
      assume d: "(y - 1) * w \<le> d" "d \<le> y * w + 2" "d < w * h" and v: "0 \<le>s v" "v \<le>s 35"
        and eq: "Spread_cell w h y x (g, r) = Inr (g[nat d := v], \<lambda>i. r (Suc (Suc i)))"
      have "0 \<le> d" using d(1) bnd(1) by simp
      then have "I (g[nat d := v])" using "1.prems"(6) [OF I len _ d(2,3) v] by simp
      then show ?thesis using eq len s by simp
    qed
    then obtain s1 where s1: "Spread_cell w h y x s = Inr s1" "int (length (fst s1)) = w * h" "I (fst s1)"
      by blast
    have "\<exists>s'. Spread_cols w h y (x + 1) s1 = Inr s' \<and> int (length (fst s')) = w * h \<and> I (fst s')"
      using "1.prems"(2,3,4,6) s1 True by (intro "1.IH") simp_all
    then show ?thesis using True s1(1) by (subst Spread_cols.simps) simp
  qed
qed

lemma Spread_rows_inv:
  assumes "int (length (fst s)) = w * h" and "y < h" and "I (fst s)"
    and "\<And>g d v. I g \<Longrightarrow> int (length g) = w * h \<Longrightarrow> 0 \<le> d \<Longrightarrow> d \<le> (h - 1) * w + 2 \<Longrightarrow> d < w * h \<Longrightarrow>
           0 \<le>s v \<Longrightarrow> v \<le>s 35 \<Longrightarrow> I (g[nat d := v])"
  shows "\<exists>s'. Spread_rows w h y s = Inr s' \<and> int (length (fst s')) = w * h \<and> I (fst s')"
  using assms
proof (induction w h y s rule: Spread_rows.induct)
  case (1 w h y s)
  show ?case
  proof (cases "y > 0")
    case False
    then show ?thesis using "1.prems"(1,3) by (simp add: Spread_rows.simps)
  next
    case True
    have "\<exists>s1. Spread_cols w h y 0 s = Inr s1 \<and> int (length (fst s1)) = w * h \<and> I (fst s1)"
    proof (cases "0 < w")
      case False
      then show ?thesis using "1.prems"(1,3) by (simp add: Spread_cols.simps)
    next
      case w: True
      have "y * w \<le> (h - 1) * w" using w "1.prems"(2) by (intro mult_right_mono) simp_all
      then show ?thesis
        using "1.prems" True by (intro Spread_cols_inv [where I = I]) simp_all
    qed
    then obtain s1 where s1: "Spread_cols w h y 0 s = Inr s1" "int (length (fst s1)) = w * h" "I (fst s1)"
      by blast
    have "\<exists>s'. Spread_rows w h (y - 1) s1 = Inr s' \<and> int (length (fst s')) = w * h \<and> I (fst s')"
      using "1.prems"(2,4) s1 True by (intro "1.IH") simp_all
    then show ?thesis using True s1(1) by (subst Spread_rows.simps) simp
  qed
qed

lemma Spread_frame:
  "Spread flame = Inr flame' \<Longrightarrow>
   width flame' = width flame \<and> height flame' = height flame \<and>
   buffer flame' = buffer flame \<and> renders flame' = renders flame"
  by (auto simp: Spread_def split: sum.splits prod.splits)

lemma Spread_inv:
  assumes "int (length (grid flame)) = width flame * height flame" and "I (grid flame)"
    and "\<And>g d v. I g \<Longrightarrow> int (length g) = width flame * height flame \<Longrightarrow> 0 \<le> d \<Longrightarrow>
           d \<le> (height flame - 1) * width flame + 2 \<Longrightarrow> d < width flame * height flame \<Longrightarrow>
           0 \<le>s v \<Longrightarrow> v \<le>s 35 \<Longrightarrow> I (g[nat d := v])"
  shows "\<exists>flame'. Spread flame = Inr flame' \<and>
           int (length (grid flame')) = width flame' * height flame' \<and> I (grid flame') \<and>
           width flame' = width flame \<and> height flame' = height flame"
proof -
  have "\<exists>s'. Spread_rows (width flame) (height flame) (height flame - 1) (grid flame, rand flame) = Inr s' \<and>
      int (length (fst s')) = width flame * height flame \<and> I (fst s')"
    using assms by (intro Spread_rows_inv [where I = I]) simp_all
  then show ?thesis by (auto simp: Spread_def)
qed

lemma Spread_times_inv:
  assumes "int (length (grid flame)) = width flame * height flame" and "I (grid flame)"
    and "\<And>g d v. I g \<Longrightarrow> int (length g) = width flame * height flame \<Longrightarrow> 0 \<le> d \<Longrightarrow>
           d \<le> (height flame - 1) * width flame + 2 \<Longrightarrow> d < width flame * height flame \<Longrightarrow>
           0 \<le>s v \<Longrightarrow> v \<le>s 35 \<Longrightarrow> I (g[nat d := v])"
  shows "\<exists>flame'. Spread_times n flame = Inr flame' \<and>
           int (length (grid flame')) = width flame' * height flame' \<and> I (grid flame') \<and>
           width flame' = width flame \<and> height flame' = height flame"
  using assms
proof (induction n arbitrary: flame)
  case 0
  then show ?case by simp
next
  case (Suc n)
  obtain f1 where f1: "Spread flame = Inr f1" "int (length (grid f1)) = width f1 * height f1"
      "I (grid f1)" "width f1 = width flame" "height f1 = height flame"
    using Spread_inv [where I = I, OF Suc.prems] by blast
  have "\<exists>flame'. Spread_times n f1 = Inr flame' \<and>
           int (length (grid flame')) = width flame' * height flame' \<and> I (grid flame') \<and>
           width flame' = width f1 \<and> height flame' = height f1"
    using f1 Suc.prems(3) by (intro Suc.IH) simp_all
  then show ?case using f1 by auto
qed

subsection \<open>What Spread depends on and what it changes\<close>

text \<open>
  C10: \<^verbatim>\<open>Spread\<close> changes the grid and the generator only. Whenever it returns, the
  width, the height, the buffer and the render counter are what they were, and it does
  return on every flame whose grid has \<open>width * height\<close> cells.
\<close>

theorem Spread_frame_effect:
  "(\<forall>flame'. Spread flame = Inr flame' \<longrightarrow>
      width flame' = width flame \<and> height flame' = height flame \<and>
      buffer flame' = buffer flame \<and> renders flame' = renders flame \<and>
      flame' = flame\<lparr>grid := grid flame', rand := rand flame'\<rparr>) \<and>
   (int (length (grid flame)) = width flame * height flame \<longrightarrow>
      (\<exists>flame'. Spread flame = Inr flame'))"
proof -
  have "\<exists>flame'. Spread flame = Inr flame'"
    if "int (length (grid flame)) = width flame * height flame"
    using Spread_inv [where I = "\<lambda>g. True", OF that] by blast
  moreover have "flame' = flame\<lparr>grid := grid flame', rand := rand flame'\<rparr>"
    if "Spread flame = Inr flame'" for flame'
    using that by (auto simp: Spread_def split: sum.splits prod.splits)
  ultimately show ?thesis using Spread_frame by blast
qed

theorem Spread_frame_effect_witness:
  "\<exists>flame'. Spread \<lparr>width = 2, height = 2, grid = [0, 0, 35, 35], buffer = ''abc'', renders = 7,
                      rand = (\<lambda>i. 3)\<rparr> = Inr flame' \<and>
      width flame' = 2 \<and> height flame' = 2 \<and> buffer flame' = ''abc'' \<and> renders flame' = 7 \<and>
      grid flame' = [0, 33, 33, 35]"
proof -
  let ?f = "\<lparr>width = 2, height = 2, grid = [0, 0, 35, 35], buffer = ''abc'', renders = 7, rand = (\<lambda>i. 3)\<rparr>"
  have len: "int (length (grid ?f)) = width ?f * height ?f" by simp
  have g: "map_sum id grid (Spread ?f) = Inr [0, 33, 33, 35]" by code_simp
  show ?thesis using Spread_frame_effect [of ?f] len g by auto
qed

text \<open>
  C9: \<^verbatim>\<open>Spread\<close> is a function of the width, the height, the grid and the generator.
  Two flames that agree on these four, whatever their buffers and counters, either both
  panic in the same way or both return, with equal grids and equal generators.
\<close>

theorem Spread_deterministic:
  assumes "width f1 = width f2" and "height f1 = height f2" and "grid f1 = grid f2"
    and "rand f1 = rand f2"
  shows "map_sum id (\<lambda>f. (grid f, rand f)) (Spread f1) = map_sum id (\<lambda>f. (grid f, rand f)) (Spread f2)"
  using assms by (simp add: Spread_def split: sum.splits prod.splits)

theorem Spread_deterministic_witness:
  "map_sum id (\<lambda>f. (grid f, rand f))
     (Spread \<lparr>width = 2, height = 2, grid = [0, 0, 35, 35], buffer = ''abc'', renders = 7, rand = (\<lambda>i. 3)\<rparr>) =
   map_sum id (\<lambda>f. (grid f, rand f))
     (Spread \<lparr>width = 2, height = 2, grid = [0, 0, 35, 35], buffer = [], renders = 0, rand = (\<lambda>i. 3)\<rparr>)"
  by (rule Spread_deterministic) simp_all

subsection \<open>The clamp invariant and the bottom row\<close>

text \<open>
  C3 does not hold of every grid: \<^verbatim>\<open>Spread\<close> clips the cells it writes and leaves
  the others alone. A grid of one row is never written, so a cell that holds 100 there
  still holds 100 after three calls.
\<close>

theorem Spread_times_clamp_counterexample:
  "map_sum id grid
     (Spread_times 3 \<lparr>width = 1, height = 1, grid = [100], buffer = [], renders = 0, rand = (\<lambda>i. 0)\<rparr>)
     = Inr [100] \<and> \<not> (100 :: int8) \<le>s 35"
  by code_simp

text \<open>
  C3: on a grid of \<open>width * height\<close> cells, any number of calls of \<^verbatim>\<open>Spread\<close>
  returns, and each cell afterwards either lies in \<open>[0, 35]\<close> or still holds the value it
  had before the calls. So a grid whose cells all lie in \<open>[0, 35]\<close>, as every grid that
  \<^verbatim>\<open>Init\<close> makes, keeps all its cells in \<open>[0, 35]\<close>.
\<close>

theorem Spread_times_clamp:
  assumes "int (length (grid flame)) = width flame * height flame"
  shows "\<exists>flame'. Spread_times n flame = Inr flame' \<and>
           length (grid flame') = length (grid flame) \<and>
           (\<forall>i < length (grid flame).
              (0 \<le>s grid flame' ! i \<and> grid flame' ! i \<le>s 35) \<or> grid flame' ! i = grid flame ! i) \<and>
           ((\<forall>c \<in> set (grid flame). 0 \<le>s c \<and> c \<le>s 35) \<longrightarrow>
            (\<forall>c \<in> set (grid flame'). 0 \<le>s c \<and> c \<le>s 35))"
proof -
  let ?g0 = "grid flame"
  let ?I = "\<lambda>g. length g = length ?g0 \<and>
                (\<forall>i < length ?g0. (0 \<le>s g ! i \<and> g ! i \<le>s 35) \<or> g ! i = ?g0 ! i)"
  have step: "?I (g[nat d := v])" if g: "?I g" and v: "0 \<le>s v" "v \<le>s 35"
    for g :: "int8 list" and d :: int and v :: int8
  proof (intro conjI allI impI)
    show "length (g[nat d := v]) = length ?g0" using g by simp
    fix i assume i: "i < length ?g0"
    show "(0 \<le>s g[nat d := v] ! i \<and> g[nat d := v] ! i \<le>s 35) \<or> g[nat d := v] ! i = ?g0 ! i"
    proof (cases "i = nat d")
      case True
      then show ?thesis using g i v by simp
    next
      case False
      then show ?thesis using g i by simp
    qed
  qed
  have "\<exists>flame'. Spread_times n flame = Inr flame' \<and>
           int (length (grid flame')) = width flame' * height flame' \<and> ?I (grid flame') \<and>
           width flame' = width flame \<and> height flame' = height flame"
  proof (rule Spread_times_inv [where I = ?I, OF assms])
    show "?I ?g0" by simp
  next
    fix g :: "int8 list" and d :: int and v :: int8
    assume "?I g" and "0 \<le>s v" and "v \<le>s 35"
    then show "?I (g[nat d := v])" by (rule step)
  qed
  then obtain flame' where f': "Spread_times n flame = Inr flame'" "?I (grid flame')"
    by blast
  have "0 \<le>s c \<and> c \<le>s 35"
    if all: "\<forall>c \<in> set ?g0. 0 \<le>s c \<and> c \<le>s 35" and c: "c \<in> set (grid flame')" for c
  proof -
    obtain i where i: "i < length (grid flame')" "c = grid flame' ! i"
      using c by (auto simp: in_set_conv_nth)
    then have "(0 \<le>s c \<and> c \<le>s 35) \<or> c = ?g0 ! i" using f'(2) by simp
    moreover have "?g0 ! i \<in> set ?g0" using i f'(2) by simp
    ultimately show ?thesis using all by auto
  qed
  then show ?thesis using f' by blast
qed

theorem Spread_times_clamp_witness:
  "\<exists>flame'. Spread_times 2 \<lparr>width = 2, height = 2, grid = [0, 0, 35, 35], buffer = [], renders = 0,
                   rand = (\<lambda>i. 3)\<rparr> = Inr flame' \<and>
     (\<forall>c \<in> set (grid flame'). 0 \<le>s c \<and> c \<le>s 35)"
proof -
  let ?f = "\<lparr>width = 2, height = 2, grid = [0, 0, 35, 35], buffer = [], renders = 0, rand = (\<lambda>i. 3)\<rparr>"
  have len: "int (length (grid ?f)) = width ?f * height ?f" by simp
  have rng: "\<forall>c \<in> set (grid ?f). 0 \<le>s c \<and> c \<le>s 35" by (simp add: word_sle_eq)
  show ?thesis using Spread_times_clamp [OF len, of 2] rng by blast
qed




subsection \<open>Spread and the step of the specification\<close>

text \<open>
  The 8-bit subtraction and the two clips of \<^verbatim>\<open>Spread\<close> are the clamped integer
  subtraction, as long as the difference stays within the 8 bits.
\<close>

lemma clip_no_wrap:
  fixes v :: int8
  assumes "- 124 \<le> sint v" and "sint v \<le> 126" and "- 1 \<le> k" and "k \<le> 4"
  shows "(if 35 <s v - word_of_int k then 35 else if v - word_of_int k <s 0 then 0 else v - word_of_int k)
     = word_of_int (max 0 (min 35 (sint v - k)))"
proof -
  define x where "x = v - word_of_int k"
  have k: "sint (word_of_int k :: int8) = k"
    using assms(3,4) by (simp add: sint_sbintrunc' signed_take_bit_int_eq_self)
  have "sint x = signed_take_bit 7 (sint v - k)"
    unfolding x_def by (simp only: sint_word_diff k) simp
  then have s: "sint x = sint v - k"
    using assms by (simp add: signed_take_bit_int_eq_self)
  have "word_of_int (sint x) = x" by simp
  then have x: "x = word_of_int (sint v - k)" by (simp only: s)
  consider (hi) "35 < sint v - k" | (lo) "sint v - k < 0" | (mid) "0 \<le> sint v - k" "sint v - k \<le> 35"
    by linarith
  then have "(if 35 <s x then 35 else if x <s 0 then 0 else x) = word_of_int (max 0 (min 35 (sint v - k)))"
  proof cases
    case hi
    then show ?thesis by (simp add: word_sless_alt s)
  next
    case lo
    then show ?thesis by (simp add: word_sless_alt s)
  next
    case mid
    then have m: "max 0 (min 35 (sint v - k)) = sint v - k" by simp
    have "\<not> 35 <s x" and "\<not> x <s 0" using mid by (simp_all add: word_sless_alt s)
    then have "(if 35 <s x then 35 else if x <s 0 then 0 else x) = x" by (simp only: if_False)
    then show ?thesis using x by (simp only: m)
  qed
  then show ?thesis by (simp only: x_def)
qed

lemma no_wrap_update:
  assumes "no_wrap g" and "0 \<le>s v" and "v \<le>s 35"
  shows "no_wrap (g[n := v])"
proof -
  have "- 124 \<le> sint v \<and> sint v \<le> 126" using assms(2,3) by (simp add: word_sle_eq)
  then show ?thesis using assms(1) set_update_subset_insert [of g n v]
    by (auto simp: no_wrap_def)
qed

lemma Spread_cell_Propagate_cell:
  assumes len: "int (length g) = w * h" and x: "0 \<le> x" "x < w" and y: "0 < y" "y < h"
    and nw: "no_wrap g"
  shows "Spread_cell w h y x (g, r) = Inr (Propagate_cell w h (y, x) (g, r)) \<and>
         int (length (fst (Propagate_cell w h (y, x) (g, r)))) = w * h \<and>
         no_wrap (fst (Propagate_cell w h (y, x) (g, r)))"
proof (rule Spread_cell_cases [OF len x y, of r])
  assume "((y * w) + x - w) + int (r 0 mod 6) - 2 < (y - 1) * w \<or>
       ((y * w) + x - w) + int (r 0 mod 6) - 2 > y * w + w"
    and eq: "Spread_cell w h y x (g, r) = Inr (g, \<lambda>i. r (Suc i))"
  then have "(y - 1) * w + x + (int (r 0 mod 6) - 2) < (y - 1) * w \<or>
       (y - 1) * w + x + (int (r 0 mod 6) - 2) > y * w + w"
    by (simp add: algebra_simps)
  then have "Propagate_cell w h (y, x) (g, r) = (g, \<lambda>i. r (Suc i))"
    unfolding Propagate_cell_def Intn_def Let_def prod.case by (simp only: if_True)
  then show ?thesis using eq len nw by simp
next
  fix d v
  let ?dst = "((y * w) + x - w) + int (r 0 mod 6) - 2"
  let ?k = "int (r (Suc 0) mod 6) - 1"
  let ?src = "g ! nat ((y * w) + x)"
  assume ns: "\<not> (?dst < (y - 1) * w \<or> ?dst > y * w + w)"
    and d: "d = (if ?dst > (w * h) - 1 then (w * h) - 1 else ?dst)"
    and v: "v = (if 35 <s ?src - word_of_int ?k then 35
                else if ?src - word_of_int ?k <s 0 then 0 else ?src - word_of_int ?k)"
    and vr: "0 \<le>s v" "v \<le>s 35"
    and eq: "Spread_cell w h y x (g, r) = Inr (g[nat d := v], \<lambda>i. r (Suc (Suc i)))"
  have ds: "(y - 1) * w + x + (int (r 0 mod 6) - 2) = ?dst" by (simp add: algebra_simps)
  note bnd = cell_bounds [OF x y]
  have "nat ((y * w) + x) < length g" using bnd len by linarith
  then have "?src \<in> set g" by simp
  then have "- 124 \<le> sint ?src" "sint ?src \<le> 126" using nw by (auto simp: no_wrap_def)
  moreover have "- 1 \<le> ?k" "?k \<le> 4" by simp_all
  ultimately have "v = word_of_int (clamp_0_35 (sint ?src - ?k))"
    unfolding v clamp_0_35_def by (rule clip_no_wrap)
  then have "Propagate_cell w h (y, x) (g, r) = (g[nat d := v], \<lambda>i. r (Suc (Suc i)))"
    unfolding Propagate_cell_def Intn_def Let_def prod.case ds using ns d
    by (simp only: if_False)
  then show ?thesis using eq len vr nw by (simp add: no_wrap_update)
qed

lemma Spread_cols_Propagate:
  assumes "int (length (fst s)) = w * h" and "0 \<le> x" and "0 < y" and "y < h" and "no_wrap (fst s)"
  shows "Spread_cols w h y x s = Inr (fold (Propagate_cell w h) (map (\<lambda>x. (y, x)) [x..w - 1]) s) \<and>
         int (length (fst (fold (Propagate_cell w h) (map (\<lambda>x. (y, x)) [x..w - 1]) s))) = w * h \<and>
         no_wrap (fst (fold (Propagate_cell w h) (map (\<lambda>x. (y, x)) [x..w - 1]) s))"
  using assms
proof (induction w h y x s rule: Spread_cols.induct)
  case (1 w h y x s)
  show ?case
  proof (cases "x < w")
    case False
    then have "[x..w - 1] = []" by simp
    then show ?thesis using False "1.prems"(1,5) by (simp add: Spread_cols.simps)
  next
    case True
    obtain g r where s: "s = (g, r)" by (cases s)
    let ?s1 = "Propagate_cell w h (y, x) s"
    have c: "Spread_cell w h y x s = Inr ?s1" "int (length (fst ?s1)) = w * h" "no_wrap (fst ?s1)"
      using Spread_cell_Propagate_cell [of g w h x y r] "1.prems" True s by simp_all
    have up: "[x..w - 1] = x # [x + 1..w - 1]" using True by (simp add: upto_rec1)
    have ih: "Spread_cols w h y (x + 1) ?s1 =
          Inr (fold (Propagate_cell w h) (map (\<lambda>x. (y, x)) [x + 1..w - 1]) ?s1) \<and>
        int (length (fst (fold (Propagate_cell w h) (map (\<lambda>x. (y, x)) [x + 1..w - 1]) ?s1))) = w * h \<and>
        no_wrap (fst (fold (Propagate_cell w h) (map (\<lambda>x. (y, x)) [x + 1..w - 1]) ?s1))"
      using "1.prems"(2,3,4) c True by (intro "1.IH") simp_all
    have "Spread_cols w h y x s = Spread_cols w h y (x + 1) ?s1"
      using True c(1) by (subst Spread_cols.simps) simp
    then show ?thesis using ih by (simp only: up list.map fold_simps)
  qed
qed

lemma Spread_rows_Propagate:
  assumes "int (length (fst s)) = w * h" and "y < h" and "no_wrap (fst s)"
  shows "Spread_rows w h y s =
           Inr (fold (Propagate_cell w h) (concat (map (\<lambda>y. map (\<lambda>x. (y, x)) [0..w - 1]) (rev [1..y]))) s) \<and>
         int (length (fst (fold (Propagate_cell w h)
           (concat (map (\<lambda>y. map (\<lambda>x. (y, x)) [0..w - 1]) (rev [1..y]))) s))) = w * h \<and>
         no_wrap (fst (fold (Propagate_cell w h)
           (concat (map (\<lambda>y. map (\<lambda>x. (y, x)) [0..w - 1]) (rev [1..y]))) s))"
  using assms
proof (induction w h y s rule: Spread_rows.induct)
  case (1 w h y s)
  let ?row = "\<lambda>y. map (\<lambda>x. (y, x)) [0..w - 1]"
  show ?case
  proof (cases "y > 0")
    case False
    then have "[1..y] = []" by simp
    then show ?thesis using False "1.prems"(1,3) by (simp add: Spread_rows.simps)
  next
    case True
    let ?s1 = "fold (Propagate_cell w h) (?row y) s"
    have c: "Spread_cols w h y 0 s = Inr ?s1" "int (length (fst ?s1)) = w * h" "no_wrap (fst ?s1)"
      using Spread_cols_Propagate [of s w h 0 y] "1.prems" True by simp_all
    have up: "rev [1..y] = y # rev [1..y - 1]" using True by (simp add: upto_rec2)
    have ih: "Spread_rows w h (y - 1) ?s1 =
          Inr (fold (Propagate_cell w h) (concat (map ?row (rev [1..y - 1]))) ?s1) \<and>
        int (length (fst (fold (Propagate_cell w h) (concat (map ?row (rev [1..y - 1]))) ?s1))) = w * h \<and>
        no_wrap (fst (fold (Propagate_cell w h) (concat (map ?row (rev [1..y - 1]))) ?s1))"
      using "1.prems"(2) c True by (intro "1.IH") simp_all
    have "Spread_rows w h y s = Spread_rows w h (y - 1) ?s1"
      using True c(1) by (subst Spread_rows.simps) simp
    then show ?thesis using ih by (simp only: up list.map concat.simps fold_append comp_apply)
  qed
qed

lemma intensities_no_wrap: "intensities g \<Longrightarrow> no_wrap g"
  by (auto simp: intensities_def no_wrap_def word_sle_eq)

text \<open>
  C2 does not hold of every cell value: the cells have 8 bits, and \<^verbatim>\<open>Spread\<close> subtracts
  in 8 bits before it clips. In the grid \<open>[0, 127]\<close> of width 1 and height 2, with the
  draws 2 and 0, the destination is cell 0 and 1 is added to the source value 127: the
  sum wraps to \<open>-128\<close> and \<^verbatim>\<open>Spread\<close> writes 0, where the integer \<open>128\<close> clamped into
  \<open>[0, 35]\<close> is 35.
\<close>

theorem Spread_is_Propagate_counterexample:
  "map_sum id grid
     (Spread \<lparr>width = 1, height = 2, grid = [0, 127], buffer = [], renders = 0,
              rand = (\<lambda>i. [2, 0] ! (i mod 2))\<rparr>) = Inr [0, 127] \<and>
   grid (Propagate \<lparr>width = 1, height = 2, grid = [0, 127], buffer = [], renders = 0,
              rand = (\<lambda>i. [2, 0] ! (i mod 2))\<rparr>) = [35, 127]"
  by code_simp

text \<open>
  C2: \<^verbatim>\<open>Spread\<close> performs the step of the specification at every source cell, the rows
  from the last one up to row 1 and each row from left to right: on a grid of
  \<open>width * height\<close> cells whose values lie between \<open>-124\<close> and \<open>126\<close>, as all intensities
  do, it never panics and its result is that of \<open>Propagate\<close>, grid and generator.
\<close>

theorem Spread_is_Propagate:
  assumes "int (length (grid flame)) = width flame * height flame" and "no_wrap (grid flame)"
  shows "Spread flame = Inr (Propagate flame)"
  using Spread_rows_Propagate [of "(grid flame, rand flame)" "width flame" "height flame" "height flame - 1"] assms
  by (simp add: Spread_def Propagate_def source_cells_def split: prod.splits)

theorem Spread_is_Propagate_witness:
  "Spread \<lparr>width = 4, height = 4, grid = [0, 0, 0, 0, 0, 0, 0, 0, 0, 0, 0, 0, 35, 35, 35, 35],
           buffer = [], renders = 0, rand = (\<lambda>i. [3, 1, 5, 5, 2, 2, 0, 0, 4, 1] ! (i mod 10))\<rparr> =
   Inr (Propagate \<lparr>width = 4, height = 4, grid = [0, 0, 0, 0, 0, 0, 0, 0, 0, 0, 0, 0, 35, 35, 35, 35],
           buffer = [], renders = 0, rand = (\<lambda>i. [3, 1, 5, 5, 2, 2, 0, 0, 4, 1] ! (i mod 10))\<rparr>) \<and>
   grid (Propagate \<lparr>width = 4, height = 4, grid = [0, 0, 0, 0, 0, 0, 0, 0, 0, 0, 0, 0, 35, 35, 35, 35],
           buffer = [], renders = 0, rand = (\<lambda>i. [3, 1, 5, 5, 2, 2, 0, 0, 4, 1] ! (i mod 10))\<rparr>) =
     [0, 0, 0, 0, 0, 0, 35, 0, 0, 30, 34, 0, 31, 35, 35, 35]"
proof -
  let ?f = "\<lparr>width = 4, height = 4, grid = [0, 0, 0, 0, 0, 0, 0, 0, 0, 0, 0, 0, 35, 35, 35, 35],
           buffer = [], renders = 0, rand = (\<lambda>i. [3, 1, 5, 5, 2, 2, 0, 0, 4, 1] ! (i mod 10))\<rparr>"
  have len: "int (length (grid ?f)) = width ?f * height ?f" by simp
  have nw: "no_wrap (grid ?f)" by (simp add: no_wrap_def)
  have g: "grid (Propagate ?f) = [0, 0, 0, 0, 0, 0, 35, 0, 0, 30, 34, 0, 31, 35, 35, 35]"
    by code_simp
  show ?thesis using Spread_is_Propagate [OF len nw] g by simp
qed

subsection \<open>The terminal reads what Render writes\<close>

text \<open>
  Fed to a terminal in its ground state, each of the four strings of \<^verbatim>\<open>Render\<close> has
  the effect it is meant to have and leaves the terminal in its ground state. The
  decimal digits of \<^verbatim>\<open>Sprintf\<close> are read back as the number they print.
\<close>

lemma decode_Nil: "decode t [] = t"
  by (simp add: decode_def)

lemma decode_Cons: "decode t (c # cs) = decode (feed t c) cs"
  by (simp add: decode_def)

lemma decode_append: "decode t (a @ b) = decode (decode t a) b"
  by (simp add: decode_def)

lemma of_char_digit: "n < 10 \<Longrightarrow> (of_char (digit n) :: nat) = 48 + n"
proof -
  assume "n < 10"
  then have "n \<in> {0, 1, 2, 3, 4, 5, 6, 7, 8, 9}" by auto
  then show ?thesis by (auto simp: digit_def)
qed

lemma feed_digit:
  "n < 10 \<Longrightarrow> feed (t\<lparr>mode := Csi ps a\<rparr>) (digit n) = t\<lparr>mode := Csi ps (10 * a + n)\<rparr>"
  by (simp add: feed_def is_digit_def digit_value_def of_char_digit)

lemma decode_Sprintf_d:
  "decode (t\<lparr>mode := Csi ps a\<rparr>) (Sprintf_d n) =
     t\<lparr>mode := Csi ps (a * 10 ^ length (Sprintf_d n) + n)\<rparr>"
proof (induction n arbitrary: a rule: Sprintf_d.induct)
  case (1 n)
  show ?case
  proof (cases "n < 10")
    case True
    then show ?thesis
      by (subst (1 2) Sprintf_d.simps) (simp add: decode_Cons decode_Nil feed_digit)
  next
    case False
    have "decode (t\<lparr>mode := Csi ps a\<rparr>) (Sprintf_d (n div 10) @ [digit (n mod 10)]) =
        t\<lparr>mode := Csi ps (10 * (a * 10 ^ length (Sprintf_d (n div 10)) + n div 10) + n mod 10)\<rparr>"
      using False by (simp add: decode_append "1.IH" decode_Cons decode_Nil feed_digit)
    moreover have "10 * (a * 10 ^ length (Sprintf_d (n div 10)) + n div 10) + n mod 10 =
        a * 10 ^ length (Sprintf_d (n div 10) @ [digit (n mod 10)]) + n"
      by (simp add: algebra_simps)
    ultimately show ?thesis using False by (subst (1 2) Sprintf_d.simps) simp
  qed
qed

lemma decode_number:
  "decode (t\<lparr>mode := Csi ps 0\<rparr>) (Sprintf_d n) = t\<lparr>mode := Csi ps n\<rparr>"
  by (simp add: decode_Sprintf_d)

lemma decode_cursor_home:
  "mode t = Ground \<Longrightarrow> decode t cursor_home = t\<lparr>cursor := 0, mode := Ground\<rparr>"
  by (simp add: cursor_home_def decode_Cons decode_Nil feed_def is_digit_def digit_value_def)

lemma decode_glyph:
  "mode t = Ground \<Longrightarrow>
   decode t glyph = t\<lparr>screen := (screen t)(cursor t \<mapsto> (fg t, bg t)), cursor := cursor t + 1, mode := Ground\<rparr>"
  by (simp add: glyph_def decode_Cons decode_Nil feed_def)

lemma decode_set_fg:
  "mode t = Ground \<Longrightarrow> decode t (set_fg c) = t\<lparr>fg := Some c, mode := Ground\<rparr>"
  by (cases c) (simp add: set_fg_def decode_Cons decode_append decode_Nil decode_number feed_def
      is_digit_def digit_value_def sgr_def)

lemma decode_set_bg:
  "mode t = Ground \<Longrightarrow> decode t (set_bg c) = t\<lparr>bg := Some c, mode := Ground\<rparr>"
  by (cases c) (simp add: set_bg_def decode_Cons decode_append decode_Nil decode_number feed_def
      is_digit_def digit_value_def sgr_def)

subsection \<open>The colour cache of Render\<close>

text \<open>
  \<^verbatim>\<open>mapColor\<close> never fails, and no intensity in \<open>[0, 35]\<close> is mapped to black.
  Cell by cell, \<^verbatim>\<open>Render\<close> and the renderer without the cache stay in step: they read
  the same cells, so they panic together, and what they have written so far leaves the
  terminal in the same state.
\<close>

lemma mapColor_colorOf: "mapColor v = Inr (colorOf v)"
  by (simp add: mapColor_eq colorOf_def)

lemma palette_not_black: "c \<in> set cmap \<Longrightarrow> c \<noteq> (0, 0, 0)"
  by (auto simp: cmap_def)

lemma colorOf_not_black: "0 \<le>s v \<Longrightarrow> v \<le>s 35 \<Longrightarrow> colorOf v \<noteq> (0, 0, 0)"
proof -
  assume v: "0 \<le>s v" "v \<le>s 35"
  then have "nat (sint v) < length cmap" by (simp add: length_cmap word_sle_eq)
  then have "cmap ! nat (sint v) \<in> set cmap" by (rule nth_mem)
  then show ?thesis using v palette_not_black by (simp add: colorOf_def)
qed

lemma Render_cell_eq:
  "Render_cell w g y x (buf, prevbg, prevfg) =
     (case index g ((y * w) + x) of
        Inl e \<Rightarrow> Inl e
      | Inr v \<Rightarrow>
          (case index g (((y + 1) * w) + x) of
             Inl e \<Rightarrow> Inl e
           | Inr v' \<Rightarrow>
               Inr (buf @ (if colorOf v \<noteq> prevfg then set_fg (colorOf v) else [])
                        @ (if colorOf v' \<noteq> prevbg then set_bg (colorOf v') else []) @ glyph,
                    colorOf v', colorOf v)))"
  by (simp add: Render_cell_def mapColor_colorOf split: sum.splits)

lemma Render_uncond_cell_eq:
  "Render_uncond_cell w g y x buf =
     (case index g ((y * w) + x) of
        Inl e \<Rightarrow> Inl e
      | Inr v \<Rightarrow>
          (case index g (((y + 1) * w) + x) of
             Inl e \<Rightarrow> Inl e
           | Inr v' \<Rightarrow> Inr (buf @ set_fg (colorOf v) @ set_bg (colorOf v') @ glyph)))"
  by (simp add: Render_uncond_cell_def mapColor_colorOf split: sum.splits)

lemma index_in_set: "index g i = Inr v \<Longrightarrow> v \<in> set g"
  by (auto simp: index_def split: if_splits)

lemma cell_in_sync:
  assumes "in_sync t0 s ubuf" and "intensities g"
  shows "rel_sum (=) (in_sync t0) (Render_cell w g y x s) (Render_uncond_cell w g y x ubuf)"
proof -
  obtain buf prevbg prevfg where s: "s = (buf, prevbg, prevfg)" by (cases s)
  let ?T = "decode t0 buf"
  have T: "decode t0 ubuf = ?T" "mode ?T = Ground"
    "fg ?T = Some prevfg \<or> prevfg = (0, 0, 0)" "bg ?T = Some prevbg \<or> prevbg = (0, 0, 0)"
    using assms(1) s by (simp_all add: in_sync_def)
  show ?thesis
  proof (cases "index g ((y * w) + x)")
    case (Inl e)
    then show ?thesis by (simp add: s Render_cell_eq Render_uncond_cell_eq)
  next
    case v: (Inr v)
    show ?thesis
    proof (cases "index g (((y + 1) * w) + x)")
      case (Inl e)
      then show ?thesis using v by (simp add: s Render_cell_eq Render_uncond_cell_eq)
    next
      case v': (Inr v')
      let ?c = "colorOf v" and ?c' = "colorOf v'"
      have "0 \<le>s v \<and> v \<le>s 35" and "0 \<le>s v' \<and> v' \<le>s 35"
        using index_in_set [OF v] index_in_set [OF v'] assms(2) by (simp_all add: intensities_def)
      then have nb: "?c \<noteq> (0, 0, 0)" "?c' \<noteq> (0, 0, 0)"
        by (simp_all add: colorOf_not_black)
      let ?new = "buf @ (if ?c \<noteq> prevfg then set_fg ?c else [])
                      @ (if ?c' \<noteq> prevbg then set_bg ?c' else []) @ glyph"
      let ?unew = "ubuf @ set_fg ?c @ set_bg ?c' @ glyph"
      have f1: "decode ?T (if ?c \<noteq> prevfg then set_fg ?c else []) = ?T\<lparr>fg := Some ?c, mode := Ground\<rparr>"
        using T(2,3) nb(1) by (auto simp: decode_set_fg decode_Nil)
      have f2: "decode (?T\<lparr>fg := Some ?c, mode := Ground\<rparr>) (if ?c' \<noteq> prevbg then set_bg ?c' else [])
          = ?T\<lparr>fg := Some ?c, bg := Some ?c', mode := Ground\<rparr>"
        using T(4) nb(2) by (auto simp: decode_set_bg decode_Nil)
      have u1: "decode ?T (set_fg ?c) = ?T\<lparr>fg := Some ?c, mode := Ground\<rparr>"
        using T(2) by (simp add: decode_set_fg)
      have u2: "decode (?T\<lparr>fg := Some ?c, mode := Ground\<rparr>) (set_bg ?c')
          = ?T\<lparr>fg := Some ?c, bg := Some ?c', mode := Ground\<rparr>"
        by (simp add: decode_set_bg)
      have new: "decode t0 ?new = decode (?T\<lparr>fg := Some ?c, bg := Some ?c', mode := Ground\<rparr>) glyph"
        by (simp only: decode_append f1 f2)
      have unew: "decode t0 ?unew = decode (?T\<lparr>fg := Some ?c, bg := Some ?c', mode := Ground\<rparr>) glyph"
        by (simp only: decode_append T(1) u1 u2)
      have "in_sync t0 (?new, ?c', ?c) ?unew"
        unfolding in_sync_def prod.case new unew by (simp add: decode_glyph)
      then show ?thesis using v v' by (simp add: s Render_cell_eq Render_uncond_cell_eq)
    qed
  qed
qed

lemma cols_in_sync:
  assumes "in_sync t0 s ubuf" and "intensities g"
  shows "rel_sum (=) (in_sync t0) (Render_cols w g y x s) (Render_uncond_cols w g y x ubuf)"
  using assms
proof (induction w g y x s arbitrary: ubuf rule: Render_cols.induct)
  case (1 w g y x s)
  show ?case
  proof (cases "x < w")
    case False
    then show ?thesis using "1.prems"(1)
      by (subst Render_cols.simps, subst Render_uncond_cols.simps) simp
  next
    case True
    have c: "rel_sum (=) (in_sync t0) (Render_cell w g y x s) (Render_uncond_cell w g y x ubuf)"
      using "1.prems" by (rule cell_in_sync)
    show ?thesis
    proof (cases "Render_cell w g y x s")
      case (Inl e)
      then have "Render_uncond_cell w g y x ubuf = Inl e"
        using c by (cases "Render_uncond_cell w g y x ubuf") simp_all
      then show ?thesis using True Inl
        by (subst Render_cols.simps, subst Render_uncond_cols.simps) simp
    next
      case (Inr s1)
      then obtain u1 where u1: "Render_uncond_cell w g y x ubuf = Inr u1" "in_sync t0 s1 u1"
        using c by (cases "Render_uncond_cell w g y x ubuf") simp_all
      have "rel_sum (=) (in_sync t0) (Render_cols w g y (x + 1) s1) (Render_uncond_cols w g y (x + 1) u1)"
        using True Inr u1(2) "1.prems"(2) by (intro "1.IH") simp_all
      then show ?thesis using True Inr u1(1)
        by (subst Render_cols.simps, subst Render_uncond_cols.simps) simp
    qed
  qed
qed

lemma rows_in_sync:
  assumes "in_sync t0 s ubuf" and "intensities g"
  shows "rel_sum (=) (in_sync t0) (Render_rows w h g y s) (Render_uncond_rows w h g y ubuf)"
  using assms
proof (induction w h g y s arbitrary: ubuf rule: Render_rows.induct)
  case (1 w h g y s)
  show ?case
  proof (cases "y < h")
    case False
    then show ?thesis using "1.prems"(1)
      by (subst Render_rows.simps, subst Render_uncond_rows.simps) simp
  next
    case True
    have c: "rel_sum (=) (in_sync t0) (Render_cols w g y 0 s) (Render_uncond_cols w g y 0 ubuf)"
      using "1.prems" by (rule cols_in_sync)
    show ?thesis
    proof (cases "Render_cols w g y 0 s")
      case (Inl e)
      then have "Render_uncond_cols w g y 0 ubuf = Inl e"
        using c by (cases "Render_uncond_cols w g y 0 ubuf") simp_all
      then show ?thesis using True Inl
        by (subst Render_rows.simps, subst Render_uncond_rows.simps) simp
    next
      case (Inr s1)
      then obtain u1 where u1: "Render_uncond_cols w g y 0 ubuf = Inr u1" "in_sync t0 s1 u1"
        using c by (cases "Render_uncond_cols w g y 0 ubuf") simp_all
      have "rel_sum (=) (in_sync t0) (Render_rows w h g (y + 2) s1) (Render_uncond_rows w h g (y + 2) u1)"
        using True Inr u1(2) "1.prems"(2) by (intro "1.IH") simp_all
      then show ?thesis using True Inr u1(1)
        by (subst Render_rows.simps, subst Render_uncond_rows.simps) simp
    qed
  qed
qed

text \<open>
  C7 does not hold of every grid: a cell outside \<open>[0, 35]\<close> is black for
  \<^verbatim>\<open>mapColor\<close>, and black is what the cache starts with: for the grid \<open>[-1, -1]\<close> of width 1 and height 2 \<^verbatim>\<open>Render\<close> writes no
  colour sequence at all, and a blank terminal prints the cell with no colour set, where
  the renderer without the cache prints it black on black.
\<close>

theorem Render_cache_counterexample:
  "map_sum id fst
     (Render \<lparr>width = 1, height = 2, grid = [- 1, - 1], buffer = [], renders = 0, rand = (\<lambda>i. 0)\<rparr>)
     = Inr (cursor_home @ glyph) \<and>
   map_sum id fst
     (Render_uncond \<lparr>width = 1, height = 2, grid = [- 1, - 1], buffer = [], renders = 0, rand = (\<lambda>i. 0)\<rparr>)
     = Inr (cursor_home @ set_fg (0, 0, 0) @ set_bg (0, 0, 0) @ glyph) \<and>
   screen (decode blank (cursor_home @ glyph)) 0 = Some (None, None) \<and>
   screen (decode blank (cursor_home @ set_fg (0, 0, 0) @ set_bg (0, 0, 0) @ glyph)) 0
     = Some (Some (0, 0, 0), Some (0, 0, 0))"
  by code_simp

text \<open>
  C7: for a grid whose cells all lie in \<open>[0, 35]\<close>, whatever the dimensions and whatever
  state the terminal is in when the frame starts, the output of \<^verbatim>\<open>Render\<close> and the
  output of the renderer without the cache leave the terminal in the same state: the
  same colours at every cell position, the same cursor, the same colours in force. The
  two renderers panic on the same flames, and the terminal ends in its ground state.
\<close>

theorem Render_cache_keeps_colours:
  assumes "intensities (grid flame)" and "mode (decode t0 (buffer flame)) = Ground"
  shows "map_sum id (\<lambda>(out, flame'). (decode t0 out, flame')) (Render flame) =
         map_sum id (\<lambda>(out, flame'). (decode t0 out, flame')) (Render_uncond flame) \<and>
         (\<forall>out flame'. Render flame = Inr (out, flame') \<longrightarrow> mode (decode t0 out) = Ground)"
proof -
  let ?b0 = "buffer flame @ cursor_home"
  have "in_sync t0 (?b0, (0, 0, 0), (0, 0, 0)) ?b0"
    using assms(2) by (simp add: in_sync_def decode_append decode_cursor_home)
  then have r: "rel_sum (=) (in_sync t0)
      (Render_rows (width flame) (height flame) (grid flame) 0 (?b0, (0, 0, 0), (0, 0, 0)))
      (Render_uncond_rows (width flame) (height flame) (grid flame) 0 ?b0)"
    using assms(1) by (rule rows_in_sync)
  show ?thesis
  proof (cases "Render_rows (width flame) (height flame) (grid flame) 0 (?b0, (0, 0, 0), (0, 0, 0))")
    case (Inl e)
    then have "Render_uncond_rows (width flame) (height flame) (grid flame) 0 ?b0 = Inl e"
      using r by (cases "Render_uncond_rows (width flame) (height flame) (grid flame) 0 ?b0") simp_all
    then show ?thesis using Inl by (simp add: Render_def Render_uncond_def)
  next
    case (Inr s1)
    then obtain u1 where u1: "Render_uncond_rows (width flame) (height flame) (grid flame) 0 ?b0 = Inr u1"
        "in_sync t0 s1 u1"
      using r by (cases "Render_uncond_rows (width flame) (height flame) (grid flame) 0 ?b0") simp_all
    obtain buf pbg pfg where s1: "s1 = (buf, pbg, pfg)" by (cases s1)
    have "decode t0 u1 = decode t0 buf" and "mode (decode t0 buf) = Ground"
      using u1(2) s1 by (simp_all add: in_sync_def)
    then show ?thesis using Inr u1(1) s1 by (simp add: Render_def Render_uncond_def)
  qed
qed

theorem Render_cache_keeps_colours_witness:
  "map_sum id (\<lambda>(out, flame'). (decode blank out, flame'))
     (Render \<lparr>width = 2, height = 2, grid = [0, 0, 35, 35], buffer = [], renders = 0, rand = (\<lambda>i. 0)\<rparr>) =
   map_sum id (\<lambda>(out, flame'). (decode blank out, flame'))
     (Render_uncond \<lparr>width = 2, height = 2, grid = [0, 0, 35, 35], buffer = [], renders = 0, rand = (\<lambda>i. 0)\<rparr>) \<and>
   map_sum id fst
     (Render \<lparr>width = 2, height = 2, grid = [0, 0, 35, 35], buffer = [], renders = 0, rand = (\<lambda>i. 0)\<rparr>) =
     Inr (cursor_home @ set_fg (7, 7, 7) @ set_bg (255, 255, 255) @ glyph @ glyph) \<and>
   map_sum id fst
     (Render_uncond \<lparr>width = 2, height = 2, grid = [0, 0, 35, 35], buffer = [], renders = 0, rand = (\<lambda>i. 0)\<rparr>) =
     Inr (cursor_home @ set_fg (7, 7, 7) @ set_bg (255, 255, 255) @ glyph
            @ set_fg (7, 7, 7) @ set_bg (255, 255, 255) @ glyph)"
proof -
  let ?f = "\<lparr>width = 2, height = 2, grid = [0, 0, 35, 35], buffer = [], renders = 0, rand = (\<lambda>i. 0)\<rparr>"
  have i: "intensities (grid ?f)" by (simp add: intensities_def word_sle_eq)
  have m: "mode (decode blank (buffer ?f)) = Ground" by (simp add: decode_Nil blank_def)
  have c: "map_sum id fst (Render ?f) =
      Inr (cursor_home @ set_fg (7, 7, 7) @ set_bg (255, 255, 255) @ glyph @ glyph)"
    by code_simp
  have u: "map_sum id fst (Render_uncond ?f) =
      Inr (cursor_home @ set_fg (7, 7, 7) @ set_bg (255, 255, 255) @ glyph
            @ set_fg (7, 7, 7) @ set_bg (255, 255, 255) @ glyph)"
    by code_simp
  show ?thesis using Render_cache_keeps_colours [OF i m] c u by simp
qed


subsection \<open>Render returns, and what it writes first\<close>

text \<open>
  On a grid of \<open>width * height\<close> cells \<^verbatim>\<open>Render\<close> reads inside the grid as long as each
  row \<open>y\<close> it visits has a row \<open>y + 1\<close> below it, which an even height guarantees. It
  only ever appends to its buffer.
\<close>

lemma Render_cell_reads:
  assumes "int (length g) = w * h" and "0 \<le> x" and "x < w" and "0 \<le> y" and "y + 1 < h"
  shows "index g ((y * w) + x) = Inr (g ! nat ((y * w) + x))"
    and "index g (((y + 1) * w) + x) = Inr (g ! nat (((y + 1) * w) + x))"
proof -
  have b: "0 \<le> (y + 1) * w + x" "(y + 1) * w + x < w * h"
    using cell_bounds [of x w "y + 1" h] assms by simp_all
  have w: "0 < w" using assms(2,3) by linarith
  have "0 \<le> y * w" using assms(4) w by simp
  then have "0 \<le> y * w + x" using assms(2) by simp
  moreover have "y * w + x < (y + 1) * w + x" using w by (simp add: algebra_simps)
  ultimately show "index g ((y * w) + x) = Inr (g ! nat ((y * w) + x))"
    using b assms(1) by (simp add: index_def)
  show "index g (((y + 1) * w) + x) = Inr (g ! nat (((y + 1) * w) + x))"
    using b assms(1) by (simp add: index_def)
qed

lemma Render_cell_extends:
  assumes "int (length g) = w * h" and "0 \<le> x" and "x < w" and "0 \<le> y" and "y + 1 < h"
  shows "\<exists>s'. Render_cell w g y x s = Inr s' \<and> (\<exists>ext. fst s' = fst s @ ext)"
proof -
  obtain buf prevbg prevfg where s: "s = (buf, prevbg, prevfg)" by (cases s)
  show ?thesis
    unfolding s Render_cell_eq Render_cell_reads [OF assms] by simp
qed

lemma Render_cols_extends:
  assumes "int (length g) = w * h" and "0 \<le> x" and "0 \<le> y" and "y + 1 < h"
  shows "\<exists>s'. Render_cols w g y x s = Inr s' \<and> (\<exists>ext. fst s' = fst s @ ext)"
  using assms
proof (induction w g y x s rule: Render_cols.induct)
  case (1 w g y x s)
  show ?case
  proof (cases "x < w")
    case False
    then show ?thesis by (subst Render_cols.simps) simp
  next
    case True
    obtain s1 e1 where c: "Render_cell w g y x s = Inr s1" "fst s1 = fst s @ e1"
      using Render_cell_extends [OF "1.prems"(1,2) True "1.prems"(3,4)] by blast
    have "\<exists>s'. Render_cols w g y (x + 1) s1 = Inr s' \<and> (\<exists>ext. fst s' = fst s1 @ ext)"
      using True c(1) "1.prems" by (intro "1.IH") simp_all
    then obtain s2 e2 where "Render_cols w g y (x + 1) s1 = Inr s2" "fst s2 = fst s @ (e1 @ e2)"
      using c(2) by auto
    then show ?thesis using True c(1) by (subst Render_cols.simps) auto
  qed
qed

lemma Render_rows_extends:
  assumes "int (length g) = w * h" and "0 \<le> y" and "even y" and "even h \<or> w \<le> 0"
  shows "\<exists>s'. Render_rows w h g y s = Inr s' \<and> (\<exists>ext. fst s' = fst s @ ext)"
  using assms
proof (induction w h g y s rule: Render_rows.induct)
  case (1 w h g y s)
  show ?case
  proof (cases "y < h")
    case False
    then show ?thesis by (subst Render_rows.simps) simp
  next
    case True
    have "\<exists>s'. Render_cols w g y 0 s = Inr s' \<and> (\<exists>ext. fst s' = fst s @ ext)"
    proof (cases "w \<le> 0")
      case True
      then show ?thesis by (subst Render_cols.simps) simp
    next
      case False
      then have "even h" using "1.prems"(4) by simp
      then have "y + 1 < h" using True "1.prems"(3) by presburger
      then show ?thesis using "1.prems"(1,2) by (intro Render_cols_extends) simp_all
    qed
    then obtain s1 e1 where c: "Render_cols w g y 0 s = Inr s1" "fst s1 = fst s @ e1"
      by blast
    have "\<exists>s'. Render_rows w h g (y + 2) s1 = Inr s' \<and> (\<exists>ext. fst s' = fst s1 @ ext)"
      using True c(1) "1.prems" by (intro "1.IH") simp_all
    then obtain s2 e2 where "Render_rows w h g (y + 2) s1 = Inr s2" "fst s2 = fst s @ (e1 @ e2)"
      using c(2) by auto
    then show ?thesis using True c(1) by (subst Render_rows.simps) auto
  qed
qed


text \<open>
  C8 does not hold of every positive height: with an odd height the last pair of rows has
  no second row. For the grid that \<^verbatim>\<open>SetDimensions\<close> makes for 1 by 1,
  \<^verbatim>\<open>Render\<close> panics when it reads the background cell of the first glyph, and nothing
  reaches the output.
\<close>

theorem first_cell_counterexample:
  "map_sum id grid (SetDimensions \<lparr>Width = 1, Height = 1\<rparr> (newFlame (\<lambda>i. 0))) = Inr [35] \<and>
   map_sum id fst
     (Render \<lparr>width = 1, height = 1, grid = [35], buffer = [], renders = 0, rand = (\<lambda>i. 0)\<rparr>)
     = Inl IndexOutOfRange"
  by code_simp

text \<open>
  C8: \<^verbatim>\<open>Render\<close> starts every frame with both cached colours at \<open>(0, 0, 0)\<close>, and no
  intensity in \<open>[0, 35]\<close> has that colour. So for a grid of \<open>width * height\<close> cells, all in
  \<open>[0, 35]\<close>, with a positive width and a positive even height, the output is the former
  buffer, the cursor-home sequence, the set-foreground sequence for cell 0, the
  set-background sequence for the cell below it, the first glyph, and the rest.
\<close>

theorem first_cell_sets_both_colours:
  assumes "int (length (grid flame)) = width flame * height flame"
    and "0 < width flame" and "0 < height flame" and "even (height flame)"
    and "intensities (grid flame)"
  shows "\<exists>rest flame'. Render flame =
           Inr (buffer flame @ cursor_home @ set_fg (colorOf (grid flame ! 0))
                  @ set_bg (colorOf (grid flame ! nat (width flame))) @ glyph @ rest, flame') \<and>
           colorOf (grid flame ! 0) \<noteq> (0, 0, 0) \<and>
           colorOf (grid flame ! nat (width flame)) \<noteq> (0, 0, 0)"
proof -
  let ?w = "width flame" and ?h = "height flame" and ?g = "grid flame"
  let ?b0 = "buffer flame @ cursor_home"
  let ?c = "colorOf (?g ! 0)" and ?c' = "colorOf (?g ! nat ?w)"
  let ?b1 = "?b0 @ set_fg ?c @ set_bg ?c' @ glyph"
  have h2: "0 + 1 < ?h" using assms(3,4) by presburger
  have z: "(0::int) \<le> 0" by simp
  have rd: "index ?g 0 = Inr (?g ! 0)" "index ?g ?w = Inr (?g ! nat ?w)"
    using Render_cell_reads [OF assms(1) z assms(2) z h2] by simp_all
  have "?g ! 0 \<in> set ?g" "?g ! nat ?w \<in> set ?g"
    using rd by (auto dest: index_in_set)
  then have nb: "?c \<noteq> (0, 0, 0)" "?c' \<noteq> (0, 0, 0)"
    using assms(5) by (simp_all add: intensities_def colorOf_not_black)
  have cell: "Render_cell ?w ?g 0 0 (?b0, (0, 0, 0), (0, 0, 0)) = Inr (?b1, ?c', ?c)"
    using rd nb by (simp add: Render_cell_eq)
  have "\<exists>s'. Render_cols ?w ?g 0 (0 + 1) (?b1, ?c', ?c) = Inr s' \<and> (\<exists>ext. fst s' = fst (?b1, ?c', ?c) @ ext)"
    using assms(1) h2 by (intro Render_cols_extends) simp_all
  then obtain s1 e1 where cols: "Render_cols ?w ?g 0 (0 + 1) (?b1, ?c', ?c) = Inr s1" "fst s1 = ?b1 @ e1"
    by auto
  have cols0: "Render_cols ?w ?g 0 0 (?b0, (0, 0, 0), (0, 0, 0)) = Inr s1"
    using assms(2) cell cols(1) by (subst Render_cols.simps) simp
  have "\<exists>s'. Render_rows ?w ?h ?g (0 + 2) s1 = Inr s' \<and> (\<exists>ext. fst s' = fst s1 @ ext)"
    using assms(1,4) by (intro Render_rows_extends) simp_all
  then obtain s2 e2 where rows: "Render_rows ?w ?h ?g (0 + 2) s1 = Inr s2" "fst s2 = fst s1 @ e2"
    by auto
  have rows0: "Render_rows ?w ?h ?g 0 (?b0, (0, 0, 0), (0, 0, 0)) = Inr s2"
    using assms(3) cols0 rows(1) by (subst Render_rows.simps) simp
  obtain buf b f where s2: "s2 = (buf, b, f)" by (cases s2)
  then have "buf = ?b1 @ e1 @ e2" using rows(2) cols(2) by simp
  then have "Render flame = Inr (buffer flame @ cursor_home @ set_fg ?c @ set_bg ?c' @ glyph @ (e1 @ e2),
      flame\<lparr>renders := renders flame + 1, buffer := []\<rparr>)"
    using rows0 s2 by (simp add: Render_def)
  then show ?thesis using nb by blast
qed

theorem first_cell_sets_both_colours_witness:
  "\<exists>rest flame'.
      Render \<lparr>width = 2, height = 2, grid = [0, 0, 35, 35], buffer = [], renders = 0, rand = (\<lambda>i. 0)\<rparr> =
        Inr (cursor_home @ set_fg (7, 7, 7) @ set_bg (255, 255, 255) @ glyph @ rest, flame')"
proof -
  let ?f = "\<lparr>width = 2, height = 2, grid = [0, 0, 35, 35], buffer = [], renders = 0, rand = (\<lambda>i. 0)\<rparr>"
  have l: "int (length (grid ?f)) = width ?f * height ?f" by simp
  have w: "0 < width ?f" and h: "0 < height ?f" and e: "even (height ?f)" by simp_all
  have i: "intensities (grid ?f)" by (simp add: intensities_def word_sle_eq)
  have c: "colorOf (grid ?f ! 0) = (7, 7, 7)" "colorOf (grid ?f ! nat (width ?f)) = (255, 255, 255)"
    by (simp_all add: colorOf_def cmap_def word_sle_eq eval_nat_numeral)
  show ?thesis using first_cell_sets_both_colours [OF l w h e i] unfolding c by simp
qed


subsection \<open>Totality\<close>





end
